theory Spec2Isabelle
  imports Main
begin

section \<open>Characters and strings\<close>

text \<open>
  A \<open>std::string\<close> is a sequence of bytes; \<open>string\<close> (a list of 8-bit \<open>char\<close>) is the
  same thing. The four characters the program compares against:
\<close>

abbreviation dquote :: char where "dquote \<equiv> CHR 0x22"
abbreviation comma :: char where "comma \<equiv> CHR 0x2C"
abbreviation newline :: char where "newline \<equiv> CHR 0x0A"
abbreviation space :: char where "space \<equiv> CHR 0x20"

section \<open>The CSV tokenizer: \<open>parse_csv_line\<close>\<close>

text \<open>
  The local variables of \<open>parse_csv_line\<close> that live across loop iterations.
  The string stream \<open>ss\<close> is the list of characters not yet read.
\<close>

record scan_state =
  fields_vec :: "string list"
  field_buffer :: string
  in_quotes :: bool

text \<open>\<open>ss.peek()\<close>: the next character without consuming it, or end-of-file.\<close>

definition peek :: "string \<Rightarrow> char option" where
  "peek ss = (case ss of [] \<Rightarrow> None | d # _ \<Rightarrow> Some d)"

text \<open>
  The loop \<open>while (ss.get(c))\<close>. The test on the quote branch is \<open>ss.peek() == '"'\<close>
  alone: the source does not consult \<open>in_quotes\<close> there.
\<close>

fun scan_loop :: "scan_state \<Rightarrow> string \<Rightarrow> scan_state" where
  "scan_loop s [] = s"
| "scan_loop s (c # ss) =
     (if c = dquote then
        (if peek ss = Some dquote
         then scan_loop (s\<lparr>field_buffer := field_buffer s @ [dquote]\<rparr>) (tl ss)
         else scan_loop (s\<lparr>in_quotes := \<not> in_quotes s\<rparr>) ss)
      else if c = comma \<and> \<not> in_quotes s
      then scan_loop (s\<lparr>fields_vec := fields_vec s @ [field_buffer s], field_buffer := []\<rparr>) ss
      else scan_loop (s\<lparr>field_buffer := field_buffer s @ [c]\<rparr>) ss)"

definition scan_init :: scan_state where
  "scan_init = \<lparr>fields_vec = [], field_buffer = [], in_quotes = False\<rparr>"

definition parse_csv_line :: "string \<Rightarrow> string list" where
  "parse_csv_line line =
     (let s = scan_loop scan_init line in fields_vec s @ [field_buffer s])"

text \<open>
  The tokenizer as the specification words it (section 4.1): a quote is an escaped quote
  only if the flag is already set and the next character is a quote as well.
\<close>

fun spec_scan_loop :: "scan_state \<Rightarrow> string \<Rightarrow> scan_state" where
  "spec_scan_loop s [] = s"
| "spec_scan_loop s (c # ss) =
     (if c = dquote then
        (if in_quotes s \<and> peek ss = Some dquote
         then spec_scan_loop (s\<lparr>field_buffer := field_buffer s @ [dquote]\<rparr>) (tl ss)
         else spec_scan_loop (s\<lparr>in_quotes := \<not> in_quotes s\<rparr>) ss)
      else if c = comma \<and> \<not> in_quotes s
      then spec_scan_loop (s\<lparr>fields_vec := fields_vec s @ [field_buffer s], field_buffer := []\<rparr>) ss
      else spec_scan_loop (s\<lparr>field_buffer := field_buffer s @ [c]\<rparr>) ss)"

definition spec_parse_csv_line :: "string \<Rightarrow> string list" where
  "spec_parse_csv_line line =
     (let s = spec_scan_loop scan_init line in fields_vec s @ [field_buffer s])"

section \<open>The CSV encoder: \<open>format_csv_field\<close>\<close>

text \<open>\<open>field.find(c) != std::string::npos\<close>.\<close>

definition contains :: "string \<Rightarrow> char \<Rightarrow> bool" where
  "contains field c = (c \<in> set field)"

text \<open>The range-based \<open>for\<close> loop that appends to \<open>escaped_field\<close>.\<close>

fun escape_loop :: "string \<Rightarrow> string \<Rightarrow> string" where
  "escape_loop escaped_field [] = escaped_field"
| "escape_loop escaped_field (c # cs) =
     (if c = dquote then escape_loop (escaped_field @ [dquote, dquote]) cs
      else escape_loop (escaped_field @ [c]) cs)"

definition format_csv_field :: "string \<Rightarrow> string" where
  "format_csv_field field =
     (if contains field comma \<or> contains field dquote \<or> contains field newline
      then escape_loop [dquote] field @ [dquote]
      else field)"

text \<open>
  The encoder as the specification words it (section 4.2): the field between two double
  quotes, every double quote of the field written twice.
\<close>

definition double_quotes :: "string \<Rightarrow> string" where
  "double_quotes field = concat (map (\<lambda>c. if c = dquote then [dquote, dquote] else [c]) field)"

definition wrap_doubled :: "string \<Rightarrow> string" where
  "wrap_doubled field = [dquote] @ double_quotes field @ [dquote]"

section \<open>The splitter: \<open>splitGroupLastName\<close>\<close>

text \<open>
  The members of \<open>std::string\<close> the splitter calls. \<open>npos\<close> is \<open>None\<close>; \<open>substr\<close> and
  \<open>erase\<close> throw \<open>std::out_of_range\<close> when the position lies beyond the end.
\<close>

datatype exn = out_of_range

fun str_find :: "string \<Rightarrow> char \<Rightarrow> nat option" where
  "str_find [] ch = None"
| "str_find (x # xs) ch = (if x = ch then Some 0 else map_option Suc (str_find xs ch))"

fun str_find_first_not_of :: "string \<Rightarrow> char \<Rightarrow> nat \<Rightarrow> nat option" where
  "str_find_first_not_of [] ch pos = None"
| "str_find_first_not_of (x # xs) ch 0 =
     (if x \<noteq> ch then Some 0 else map_option Suc (str_find_first_not_of xs ch 0))"
| "str_find_first_not_of (x # xs) ch (Suc pos) = map_option Suc (str_find_first_not_of xs ch pos)"

fun str_find_last_not_of :: "string \<Rightarrow> char \<Rightarrow> nat option" where
  "str_find_last_not_of [] ch = None"
| "str_find_last_not_of (x # xs) ch =
     (case str_find_last_not_of xs ch of
        Some i \<Rightarrow> Some (Suc i)
      | None \<Rightarrow> if x \<noteq> ch then Some 0 else None)"

definition substr :: "string \<Rightarrow> nat \<Rightarrow> nat option \<Rightarrow> exn + string" where
  "substr s pos n =
     (if length s < pos then Inl out_of_range
      else Inr (case n of None \<Rightarrow> drop pos s | Some k \<Rightarrow> take k (drop pos s)))"

definition erase :: "string \<Rightarrow> nat \<Rightarrow> exn + string" where
  "erase s pos = (if length s < pos then Inl out_of_range else Inr (take pos s))"

text \<open>
  The two output parameters are returned as a pair (group, lastName); an exception
  leaving the function is \<open>Inl\<close>.
\<close>

definition splitGroupLastName :: "string \<Rightarrow> exn + (string \<times> string)" where
  "splitGroupLastName combined =
     (if combined = [] then Inr ([], [])
      else case str_find combined space of
        Some first_space \<Rightarrow>
          (case substr combined 0 (Some first_space) of
             Inl e \<Rightarrow> Inl e
           | Inr group' \<Rightarrow>
               (case (case str_find_last_not_of group' space of
                        Some last_char_group \<Rightarrow> erase group' (last_char_group + 1)
                      | None \<Rightarrow> Inr []) of
                  Inl e \<Rightarrow> Inl e
                | Inr group' \<Rightarrow>
                    (case str_find_first_not_of combined space first_space of
                       Some last_name_start \<Rightarrow>
                         (case substr combined last_name_start None of
                            Inl e \<Rightarrow> Inl e
                          | Inr lastName \<Rightarrow> Inr (group', lastName))
                     | None \<Rightarrow> Inr (group', []))))
      | None \<Rightarrow> Inr ([], combined))"

text \<open>
  The splitter as the specification words it (section 3): the group is what stands before
  the first space, trailing spaces trimmed; the last name is what stands after the first
  run of spaces; without a space the whole string is the last name.
\<close>

definition trim_trailing_spaces :: "string \<Rightarrow> string" where
  "trim_trailing_spaces s = rev (dropWhile (\<lambda>x. x = space) (rev s))"

definition spec_group :: "string \<Rightarrow> string" where
  "spec_group combined =
     (if space \<in> set combined
      then trim_trailing_spaces (takeWhile (\<lambda>x. x \<noteq> space) combined) else [])"

definition spec_lastName :: "string \<Rightarrow> string" where
  "spec_lastName combined =
     (if space \<in> set combined
      then dropWhile (\<lambda>x. x = space) (dropWhile (\<lambda>x. x \<noteq> space) combined) else combined)"

section \<open>The row mapper and the row writer (body of the loop in \<open>main\<close>)\<close>

abbreviation (input) NUM_OUTPUT_COLUMNS :: nat where "NUM_OUTPUT_COLUMNS \<equiv> 23"
abbreviation (input) INPUT_IDX_FIRSTNAME :: nat where "INPUT_IDX_FIRSTNAME \<equiv> 2"
abbreviation (input) INPUT_IDX_GROUPLASTNAME :: nat where "INPUT_IDX_GROUPLASTNAME \<equiv> 3"
abbreviation (input) INPUT_IDX_EMAILLOGIN :: nat where "INPUT_IDX_EMAILLOGIN \<equiv> 4"
abbreviation (input) INPUT_IDX_EMAILCREATED :: nat where "INPUT_IDX_EMAILCREATED \<equiv> 5"
abbreviation (input) INPUT_IDX_PHONE :: nat where "INPUT_IDX_PHONE \<equiv> 6"
abbreviation (input) INPUT_NUM_COLUMNS_EXPECTED :: nat where "INPUT_NUM_COLUMNS_EXPECTED \<equiv> 7"

text \<open>
  Lines 325 to 378: the vector \<open>output_fields\<close> is created with 23 empty strings and six
  positions are assigned. \<open>input_fields[k]\<close> is the unchecked \<open>operator[]\<close>; the loop
  reaches this code only behind the test \<open>input_fields.size() < 7\<close> (see \<open>loop_body\<close>).
\<close>

definition build_output_fields :: "string list \<Rightarrow> string \<Rightarrow> exn + string list" where
  "build_output_fields input_fields contact_group_label =
     (let output_fields = replicate NUM_OUTPUT_COLUMNS [];
          output_fields = output_fields[0 := input_fields ! INPUT_IDX_FIRSTNAME]
      in case splitGroupLastName (input_fields ! INPUT_IDX_GROUPLASTNAME) of
           Inl e \<Rightarrow> Inl e
         | Inr (group', lastName) \<Rightarrow>
             (let output_fields =
                    output_fields[2 := (if group' \<noteq> [] then group' @ [space] @ lastName else lastName)];
                  output_fields = output_fields[16 := contact_group_label];
                  output_fields = output_fields[18 := input_fields ! INPUT_IDX_EMAILCREATED];
                  output_fields = output_fields[20 := input_fields ! INPUT_IDX_EMAILLOGIN];
                  output_fields = output_fields[22 := input_fields ! INPUT_IDX_PHONE]
              in Inr output_fields))"

text \<open>
  Lines 381 to 392: the \<open>for\<close> loop over \<open>i\<close> writes each encoded field, a comma after
  every field but the last, and then the newline. The file is open in binary mode, so
  the bytes handed to the stream are the bytes of the file. \<open>write_row\<close> returns the text
  appended to the file.
\<close>

definition write_row :: "string list \<Rightarrow> string" where
  "write_row output_fields =
     foldl (\<lambda>out i.
              let out = out @ format_csv_field (output_fields ! i)
              in if i < length output_fields - 1 then out @ [comma] else out)
       [] [0..<length output_fields]
     @ [newline]"

text \<open>Fields joined by single commas, as the specification words the row serialization.\<close>

fun join_commas :: "string list \<Rightarrow> string" where
  "join_commas [] = []"
| "join_commas [x] = x"
| "join_commas (x # y # ys) = x @ [comma] @ join_commas (y # ys)"

section \<open>The loop over the input lines and \<open>main\<close>\<close>

text \<open>
  What the loop writes to \<open>std::cerr\<close>: each message carries the line number, and the
  ones about a rejected row the raw line (the second one also the number of fields found).
\<close>

datatype diag =
    EmptyLineSkipped int
  | TooFewColumns int nat string
  | OutOfRangeError int string

text \<open>
  The variables of \<open>main\<close> that the loop reads and writes. \<open>output_file\<close> is the sequence
  of bytes written so far. The two counters are C++ \<open>int\<close>s; they are modelled by
  unbounded integers, which is exact for inputs of fewer than \<open>2^31\<close> lines.
\<close>

record main_state =
  output_file :: string
  cerr :: "diag list"
  is_first_line :: bool
  line_number :: int
  processed_count :: int

text \<open>Lines 312 to 407: what is done with a line that is neither empty nor the header.\<close>

definition process_data_line :: "string \<Rightarrow> main_state \<Rightarrow> string \<Rightarrow> main_state" where
  "process_data_line contact_group_label st line =
     (let input_fields = parse_csv_line line in
      if length input_fields < INPUT_NUM_COLUMNS_EXPECTED
      then st\<lparr>cerr := cerr st @ [TooFewColumns (line_number st) (length input_fields) line]\<rparr>
      else case build_output_fields input_fields contact_group_label of
             Inl out_of_range \<Rightarrow> st\<lparr>cerr := cerr st @ [OutOfRangeError (line_number st) line]\<rparr>
           | Inr output_fields \<Rightarrow>
               st\<lparr>output_file := output_file st @ write_row output_fields,
                  processed_count := processed_count st + 1\<rparr>)"

text \<open>Lines 293 to 408: one iteration of \<open>while (std::getline(input_file, line))\<close>.\<close>

definition loop_body :: "string \<Rightarrow> main_state \<Rightarrow> string \<Rightarrow> main_state" where
  "loop_body contact_group_label st0 line =
     (let st = st0\<lparr>line_number := line_number st0 + 1\<rparr> in
      if line = [] then st\<lparr>cerr := cerr st @ [EmptyLineSkipped (line_number st)]\<rparr>
      else if is_first_line st then st\<lparr>is_first_line := False\<rparr>
      else process_data_line contact_group_label st line)"

fun process_lines :: "string \<Rightarrow> main_state \<Rightarrow> string list \<Rightarrow> main_state" where
  "process_lines contact_group_label st [] = st"
| "process_lines contact_group_label st (line # rest) =
     process_lines contact_group_label (loop_body contact_group_label st line) rest"

definition utf8_bom :: string where
  "utf8_bom = [CHR 0xEF, CHR 0xBB, CHR 0xBF]"

definition output_header :: string where
  "output_header = ''First Name,Middle Name,Last Name,Phonetic First Name,Phonetic Middle Name,Phonetic Last Name,Name Prefix,Name Suffix,Nickname,File As,Organization Name,Organization Title,Organization Department,Birthday,Notes,Photo,Labels,E-mail 1 - Label,E-mail 1 - Value,E-mail 2 - Label,E-mail 2 - Value,Phone 1 - Label,Phone 1 - Value''"

text \<open>The state in which the loop starts: the byte-order mark and the header line are written.\<close>

definition initial_state :: main_state where
  "initial_state =
     \<lparr>output_file = utf8_bom @ output_header @ [newline], cerr = [],
      is_first_line = True, line_number = 0, processed_count = 0\<rparr>"

text \<open>
  \<open>main\<close>: the three early \<open>return 1\<close> are \<open>Inl\<close>; a run that reaches the loop returns 0
  and reports \<open>processed_count\<close> of its final state. The input file is given by the lines
  \<open>std::getline\<close> reads from it (\<open>None\<close> when it cannot be opened), the label by the line
  read from the console.
\<close>

datatype fatal = WrongArgumentCount | InputNotOpened | OutputNotOpened

definition main :: "int \<Rightarrow> string \<Rightarrow> string list option \<Rightarrow> bool \<Rightarrow> fatal + main_state" where
  "main argc contact_group_label input_file output_opened =
     (if argc \<noteq> 3 \<and> argc \<noteq> 1 then Inl WrongArgumentCount
      else case input_file of
        None \<Rightarrow> Inl InputNotOpened
      | Some lines \<Rightarrow>
          if \<not> output_opened then Inl OutputNotOpened
          else Inr (process_lines contact_group_label initial_state lines))"

definition exit_code :: "fatal + main_state \<Rightarrow> int" where
  "exit_code r = (case r of Inl _ \<Rightarrow> 1 | Inr _ \<Rightarrow> 0)"

section \<open>What the specification says about the loop\<close>

text \<open>
  The text a line taken as a data row adds to the output file, if it adds any: nothing for
  a row of fewer than seven fields.
\<close>

definition data_line_of :: "string \<Rightarrow> string \<Rightarrow> string option" where
  "data_line_of contact_group_label line =
     (let input_fields = parse_csv_line line in
      if length input_fields < INPUT_NUM_COLUMNS_EXPECTED then None
      else case build_output_fields input_fields contact_group_label of
             Inl e \<Rightarrow> None
           | Inr output_fields \<Rightarrow> Some (write_row output_fields))"

text \<open>
  The lines that are taken as data rows from a state on: the non-empty lines, without the
  first of them while the header is still to come.
\<close>

definition candidates :: "bool \<Rightarrow> string list \<Rightarrow> string list" where
  "candidates first ls =
     (if first then tl (filter (\<lambda>l. l \<noteq> []) ls) else filter (\<lambda>l. l \<noteq> []) ls)"

text \<open>The data lines of the output file for a whole input, in order.\<close>

definition data_lines_written :: "string \<Rightarrow> string list \<Rightarrow> string list" where
  "data_lines_written contact_group_label lines =
     List.map_filter (data_line_of contact_group_label) (tl (filter (\<lambda>l. l \<noteq> []) lines))"

text \<open>
  Line \<open>i\<close> of the input (counted from 0) is processed as a data row: the iteration that
  reads it counts the line and hands it to \<open>process_data_line\<close>.
\<close>

definition processed_as_data_row :: "string \<Rightarrow> string list \<Rightarrow> nat \<Rightarrow> bool" where
  "processed_as_data_row contact_group_label lines i =
     (let st = process_lines contact_group_label initial_state (take i lines)
      in loop_body contact_group_label st (lines ! i) =
           process_data_line contact_group_label (st\<lparr>line_number := line_number st + 1\<rparr>) (lines ! i))"

section \<open>The tokenizer: totality and the quote rule\<close>

lemma scan_loop_quoted_plain:
  "in_quotes s \<Longrightarrow> dquote \<notin> set rest \<Longrightarrow>
   scan_loop s rest = s\<lparr>field_buffer := field_buffer s @ rest\<rparr>"
  by (induction rest arbitrary: s) auto

lemma peek_append_plain:
  "dquote \<notin> set rest \<Longrightarrow> (peek (ss @ rest) = Some dquote) = (peek ss = Some dquote)"
  by (cases ss; cases rest) (auto simp: peek_def)

lemma scan_loop_append_plain:
  "dquote \<notin> set rest \<Longrightarrow> scan_loop s (pre @ rest) = scan_loop (scan_loop s pre) rest"
proof (induction s pre rule: scan_loop.induct)
  case (1 s)
  then show ?case by simp
next
  case (2 s c ss)
  have tl_app: "peek ss = Some dquote \<Longrightarrow> tl (ss @ rest) = tl ss @ rest"
    by (cases ss) (simp_all add: peek_def)
  show ?case
    using 2 by (simp add: peek_append_plain tl_app)
qed

text \<open>
  C9. \<open>parse_csv_line\<close> is a total function without an error result. It returns at least
  one field, and the last field is the buffer as the scan left it. A quote that is never
  closed is no error: if the flag is set after a prefix of the line and no quote follows,
  the flag is still set at the end of the line and everything that follows, commas
  included, is appended to the buffer, which becomes the last field.
\<close>

theorem parse_csv_line_total_nonvalidating:
  "1 \<le> length (parse_csv_line line)
   \<and> last (parse_csv_line line) = field_buffer (scan_loop scan_init line)
   \<and> (in_quotes (scan_loop scan_init pre) \<and> dquote \<notin> set rest \<longrightarrow>
        in_quotes (scan_loop scan_init (pre @ rest))
        \<and> parse_csv_line (pre @ rest) =
            fields_vec (scan_loop scan_init pre) @ [field_buffer (scan_loop scan_init pre) @ rest])"
  by (simp add: parse_csv_line_def Let_def scan_loop_append_plain scan_loop_quoted_plain)

theorem parse_csv_line_total_nonvalidating_witness:
  "in_quotes (scan_loop scan_init [CHR ''a'', comma, dquote])
   \<and> dquote \<notin> set ''b,c''
   \<and> in_quotes (scan_loop scan_init ([CHR ''a'', comma, dquote] @ ''b,c''))
   \<and> parse_csv_line ([CHR ''a'', comma, dquote] @ ''b,c'') = [''a'', ''b,c'']"
  using parse_csv_line_total_nonvalidating
    [of "[CHR ''a'', comma, dquote] @ ''b,c''" "[CHR ''a'', comma, dquote]" "''b,c''"]
  by (simp add: scan_init_def peek_def)

text \<open>
  The quote branch of the source takes two adjacent quotes as an escaped quote in every
  state, whatever the flag says.
\<close>

lemma scan_loop_two_quotes_any_flag:
  "scan_loop s (dquote # dquote # rest) =
     scan_loop (s\<lparr>field_buffer := field_buffer s @ [dquote]\<rparr>) rest"
  by (simp add: peek_def)

text \<open>
  C3. The claim restricts the escaped quote to the state in which the flag is set. The
  source does not: on the line of two quotes (an empty quoted field) the scan starts with
  the flag unset, and it emits a literal quote and consumes both characters, where the
  rule of the claim toggles the flag twice and leaves the buffer empty. The line
  \<open>a,"",b\<close> therefore yields the middle field \<open>"\<close> instead of the empty field.
\<close>

theorem escaped_quote_taken_outside_quotes:
  "\<not> in_quotes scan_init
   \<and> scan_loop scan_init [dquote, dquote] = scan_init\<lparr>field_buffer := [dquote]\<rparr>
   \<and> spec_scan_loop scan_init [dquote, dquote] = scan_init
   \<and> parse_csv_line (''a,'' @ [dquote, dquote] @ '',b'') = [''a'', [dquote], ''b'']
   \<and> spec_parse_csv_line (''a,'' @ [dquote, dquote] @ '',b'') = [''a'', [], ''b'']"
  by (simp add: parse_csv_line_def spec_parse_csv_line_def scan_init_def peek_def)

section \<open>The encoder\<close>

lemma escape_loop_double_quotes:
  "escape_loop acc cs = acc @ double_quotes cs"
  by (induction cs arbitrary: acc) (simp_all add: double_quotes_def)

lemma length_double_quotes_ge: "length cs \<le> length (double_quotes cs)"
  by (induction cs) (simp_all add: double_quotes_def)

lemma wrap_doubled_neq: "wrap_doubled field \<noteq> field"
proof
  assume "wrap_doubled field = field"
  then have "length (wrap_doubled field) = length field" by simp
  moreover have "length field + 2 \<le> length (wrap_doubled field)"
    using length_double_quotes_ge [of field] by (simp add: wrap_doubled_def)
  ultimately show False by simp
qed

lemma format_csv_field_cases:
  "format_csv_field field =
     (if comma \<in> set field \<or> dquote \<in> set field \<or> newline \<in> set field
      then wrap_doubled field else field)"
  by (simp add: format_csv_field_def contains_def escape_loop_double_quotes wrap_doubled_def)

text \<open>
  C6. The encoder returns the field between double quotes, with each of its double quotes
  doubled, exactly when the field contains a comma, a double quote or a newline; in every
  other case it returns the field itself.
\<close>

theorem format_csv_field_quotes_iff_needed:
  "format_csv_field field =
     (if comma \<in> set field \<or> dquote \<in> set field \<or> newline \<in> set field
      then wrap_doubled field else field)
   \<and> (format_csv_field field = wrap_doubled field
        \<longleftrightarrow> comma \<in> set field \<or> dquote \<in> set field \<or> newline \<in> set field)
   \<and> (format_csv_field field = field
        \<longleftrightarrow> \<not> (comma \<in> set field \<or> dquote \<in> set field \<or> newline \<in> set field))"
  using format_csv_field_cases [of field] wrap_doubled_neq [of field]
  by (simp split: if_splits)

theorem format_csv_field_quotes_iff_needed_witness:
  "format_csv_field (''a'' @ [dquote] @ ''b,c'') =
     [dquote] @ ''a'' @ [dquote, dquote] @ ''b,c'' @ [dquote]
   \<and> format_csv_field ''+79990000000'' = ''+79990000000''"
  using format_csv_field_quotes_iff_needed [of "''a'' @ [dquote] @ ''b,c''"]
    format_csv_field_quotes_iff_needed [of "''+79990000000''"]
  by (simp add: wrap_doubled_def double_quotes_def)

section \<open>Tokenizing an encoded field\<close>

lemma scan_loop_plain:
  "comma \<notin> set f \<Longrightarrow> dquote \<notin> set f \<Longrightarrow>
   scan_loop s f = s\<lparr>field_buffer := field_buffer s @ f\<rparr>"
  by (induction f arbitrary: s) auto

lemma spec_scan_loop_plain:
  "comma \<notin> set f \<Longrightarrow> dquote \<notin> set f \<Longrightarrow>
   spec_scan_loop s f = s\<lparr>field_buffer := field_buffer s @ f\<rparr>"
  by (induction f arbitrary: s) auto

lemma scan_loop_quoted_body:
  "in_quotes s \<Longrightarrow>
   scan_loop s (double_quotes f @ [dquote]) =
     s\<lparr>field_buffer := field_buffer s @ f, in_quotes := False\<rparr>"
proof (induction f arbitrary: s)
  case Nil
  then show ?case by (simp add: peek_def double_quotes_def)
next
  case (Cons c cs)
  show ?case
  proof (cases "c = dquote")
    case True
    then show ?thesis
      using Cons.prems Cons.IH [of "s\<lparr>field_buffer := field_buffer s @ [dquote]\<rparr>"]
      by (simp add: peek_def double_quotes_def)
  next
    case False
    then show ?thesis
      using Cons.prems Cons.IH [of "s\<lparr>field_buffer := field_buffer s @ [c]\<rparr>"]
      by (simp add: double_quotes_def)
  qed
qed

lemma spec_scan_loop_quoted_body:
  "in_quotes s \<Longrightarrow>
   spec_scan_loop s (double_quotes f @ [dquote]) =
     s\<lparr>field_buffer := field_buffer s @ f, in_quotes := False\<rparr>"
proof (induction f arbitrary: s)
  case Nil
  then show ?case by (simp add: peek_def double_quotes_def)
next
  case (Cons c cs)
  show ?case
  proof (cases "c = dquote")
    case True
    then show ?thesis
      using Cons.prems Cons.IH [of "s\<lparr>field_buffer := field_buffer s @ [dquote]\<rparr>"]
      by (simp add: peek_def double_quotes_def)
  next
    case False
    then show ?thesis
      using Cons.prems Cons.IH [of "s\<lparr>field_buffer := field_buffer s @ [c]\<rparr>"]
      by (simp add: double_quotes_def)
  qed
qed

lemma spec_scan_loop_wrapped:
  "\<not> in_quotes s \<Longrightarrow>
   spec_scan_loop s (wrap_doubled f) = s\<lparr>field_buffer := field_buffer s @ f\<rparr>"
  using spec_scan_loop_quoted_body [of "s\<lparr>in_quotes := True\<rparr>" f]
  by (simp add: wrap_doubled_def)

text \<open>
  With the quote rule of the specification the round trip holds for every field.
\<close>

lemma spec_round_trip: "spec_parse_csv_line (format_csv_field f) = [f]"
proof (cases "comma \<in> set f \<or> dquote \<in> set f \<or> newline \<in> set f")
  case True
  then have "format_csv_field f = wrap_doubled f"
    by (simp add: format_csv_field_cases)
  then show ?thesis
    by (simp add: spec_parse_csv_line_def spec_scan_loop_wrapped scan_init_def)
next
  case False
  then have "format_csv_field f = f"
    by (simp add: format_csv_field_cases)
  then show ?thesis using False
    by (simp add: spec_parse_csv_line_def spec_scan_loop_plain scan_init_def)
qed

text \<open>
  With the quote rule of the source the opening quote of an encoded field pairs with a
  quote that follows it. The scan recovers the field unless the field is a non-empty run
  of quotes; then it returns one quote too many.
\<close>

lemma scan_loop_wrapped:
  "\<not> in_quotes s \<Longrightarrow>
   scan_loop s (wrap_doubled f) =
     s\<lparr>field_buffer := field_buffer s @ (if set f \<subseteq> {dquote} then f @ [dquote] else f)\<rparr>"
proof (induction f arbitrary: s)
  case Nil
  then show ?case by (simp add: wrap_doubled_def double_quotes_def peek_def)
next
  case (Cons c cs)
  show ?case
  proof (cases "c = dquote")
    case True
    have "scan_loop s (wrap_doubled (c # cs)) =
          scan_loop (s\<lparr>field_buffer := field_buffer s @ [dquote]\<rparr>) (wrap_doubled cs)"
      using True by (simp add: wrap_doubled_def double_quotes_def peek_def)
    then show ?thesis
      using True Cons.prems Cons.IH [of "s\<lparr>field_buffer := field_buffer s @ [dquote]\<rparr>"]
      by simp
  next
    case False
    have "scan_loop s (wrap_doubled (c # cs)) =
          scan_loop (s\<lparr>in_quotes := True\<rparr>) (double_quotes (c # cs) @ [dquote])"
      using False Cons.prems by (simp add: wrap_doubled_def double_quotes_def peek_def)
    then show ?thesis
      using False Cons.prems scan_loop_quoted_body [of "s\<lparr>in_quotes := True\<rparr>" "c # cs"]
      by (simp del: scan_loop.simps)
  qed
qed

lemma code_round_trip:
  "parse_csv_line (format_csv_field f) =
     (if f \<noteq> [] \<and> set f \<subseteq> {dquote} then [f @ [dquote]] else [f])"
proof (cases "comma \<in> set f \<or> dquote \<in> set f \<or> newline \<in> set f")
  case True
  then have "format_csv_field f = wrap_doubled f"
    by (simp add: format_csv_field_cases)
  then show ?thesis using True
    by (auto simp add: parse_csv_line_def scan_loop_wrapped scan_init_def)
next
  case False
  then have "format_csv_field f = f"
    by (simp add: format_csv_field_cases)
  then show ?thesis using False
    by (cases f) (auto simp add: parse_csv_line_def scan_loop_plain scan_init_def)
qed

text \<open>
  C4. The round trip fails on the field that is one double quote: its encoding is four
  quotes, which the source's tokenizer reads as two escaped quotes, so the result is the
  field of two quotes. The tokenizer with the rule of the specification returns the field.
\<close>

theorem round_trip_fails_on_lone_quote:
  "format_csv_field [dquote] = [dquote, dquote, dquote, dquote]
   \<and> parse_csv_line (format_csv_field [dquote]) = [[dquote, dquote]]
   \<and> parse_csv_line (format_csv_field [dquote]) \<noteq> [[dquote]]
   \<and> spec_parse_csv_line (format_csv_field [dquote]) = [[dquote]]"
  by (simp add: format_csv_field_def contains_def parse_csv_line_def spec_parse_csv_line_def
      scan_init_def peek_def)

section \<open>The splitter\<close>

lemma str_find_takeWhile:
  "str_find s ch = (if ch \<in> set s then Some (length (takeWhile (\<lambda>x. x \<noteq> ch) s)) else None)"
  by (induction s) auto

lemma str_find_last_not_of_less:
  "str_find_last_not_of s ch = Some i \<Longrightarrow> i < length s"
  by (induction s arbitrary: i) (auto split: option.splits if_splits)

lemma rev_dropWhile_rev_Cons:
  "rev (dropWhile P (rev (x # xs))) =
     (if rev (dropWhile P (rev xs)) = [] then (if P x then [] else [x])
      else x # rev (dropWhile P (rev xs)))"
  by (auto simp: dropWhile_append)

lemma str_find_last_not_of_trim:
  "(case str_find_last_not_of s ch of None \<Rightarrow> [] | Some i \<Rightarrow> take (Suc i) s) =
     rev (dropWhile (\<lambda>x. x = ch) (rev s))"
proof (induction s)
  case Nil
  then show ?case by simp
next
  case (Cons x xs)
  show ?case
  proof (cases "str_find_last_not_of xs ch")
    case None
    then show ?thesis using Cons.IH
      by (simp only: rev_dropWhile_rev_Cons) simp
  next
    case (Some i)
    then have "i < length xs" by (rule str_find_last_not_of_less)
    then have "take (Suc i) xs \<noteq> []" by (cases xs) simp_all
    moreover have "rev (dropWhile (\<lambda>x. x = ch) (rev xs)) = take (Suc i) xs"
      using Cons.IH Some by simp
    ultimately have "rev (dropWhile (\<lambda>x. x = ch) (rev xs)) \<noteq> []" by simp
    then have "rev (dropWhile (\<lambda>x. x = ch) (rev (x # xs))) =
                 x # rev (dropWhile (\<lambda>x. x = ch) (rev xs))"
      by (simp only: rev_dropWhile_rev_Cons if_False)
    then show ?thesis using Cons.IH Some by simp
  qed
qed

lemma str_find_first_not_of_dropWhile:
  "str_find_first_not_of s ch pos =
     (if dropWhile (\<lambda>x. x = ch) (drop pos s) = [] then None
      else Some (length s - length (dropWhile (\<lambda>x. x = ch) (drop pos s))))"
proof (induction s ch pos rule: str_find_first_not_of.induct)
  case (1 ch pos)
  then show ?case by simp
next
  case (2 x xs ch)
  have "length (dropWhile (\<lambda>x. x = ch) xs) \<le> length xs"
    by (rule length_dropWhile_le)
  then show ?case using 2 by (auto simp: Suc_diff_le)
next
  case (3 x xs ch pos)
  have "length (dropWhile (\<lambda>x. x = ch) (drop pos xs)) \<le> length (drop pos xs)"
    by (rule length_dropWhile_le)
  then have "length (dropWhile (\<lambda>x. x = ch) (drop pos xs)) \<le> length xs" by simp
  then show ?case using 3 by (auto simp: Suc_diff_le)
qed

lemma drop_to_suffix: "s = a @ r \<Longrightarrow> drop (length s - length r) s = r"
  by simp

lemma drop_dropWhile_suffix:
  "drop (length s - length (dropWhile P (drop pos s))) s = dropWhile P (drop pos s)"
proof -
  have "s = (take pos s @ takeWhile P (drop pos s)) @ dropWhile P (drop pos s)"
    by simp
  then show ?thesis by (rule drop_to_suffix)
qed

lemma drop_takeWhile_length: "drop (length (takeWhile P s)) s = dropWhile P s"
  by (induction s) auto

lemma take_takeWhile_length: "take (length (takeWhile P s)) s = takeWhile P s"
  by (induction s) auto

text \<open>
  The splitter never throws, and it computes the pair the specification describes.
\<close>

lemma splitGroupLastName_spec:
  "splitGroupLastName combined = Inr (spec_group combined, spec_lastName combined)"
proof (cases "space \<in> set combined")
  case False
  then show ?thesis
    by (simp add: splitGroupLastName_def str_find_takeWhile spec_group_def spec_lastName_def)
next
  case True
  then have ne: "combined \<noteq> []" by auto
  let ?fs = "length (takeWhile (\<lambda>x. x \<noteq> space) combined)"
  let ?g = "takeWhile (\<lambda>x. x \<noteq> space) combined"
  have find: "str_find combined space = Some ?fs"
    using True by (simp add: str_find_takeWhile)
  have sub: "substr combined 0 (Some ?fs) = Inr ?g"
    by (simp add: substr_def take_takeWhile_length)
  have trim: "(case str_find_last_not_of ?g space of
                 Some last_char_group \<Rightarrow> erase ?g (last_char_group + 1)
               | None \<Rightarrow> Inr []) = Inr (trim_trailing_spaces ?g)"
  proof (cases "str_find_last_not_of ?g space")
    case None
    then show ?thesis
      using str_find_last_not_of_trim [of ?g space]
      by (simp add: trim_trailing_spaces_def)
  next
    case (Some i)
    then have "i < length ?g" by (rule str_find_last_not_of_less)
    then show ?thesis
      using Some str_find_last_not_of_trim [of ?g space]
      by (simp add: trim_trailing_spaces_def erase_def)
  qed
  let ?r = "dropWhile (\<lambda>x. x = space) (dropWhile (\<lambda>x. x \<noteq> space) combined)"
  have r: "dropWhile (\<lambda>x. x = space) (drop ?fs combined) = ?r"
    by (simp add: drop_takeWhile_length)
  have suffix: "drop (length combined - length ?r) combined = ?r"
    using drop_dropWhile_suffix [of combined "\<lambda>x. x = space" ?fs] by (simp only: r)
  have ffn: "str_find_first_not_of combined space ?fs =
               (if ?r = [] then None else Some (length combined - length ?r))"
    by (simp only: str_find_first_not_of_dropWhile r)
  have last: "(case str_find_first_not_of combined space ?fs of
                 Some last_name_start \<Rightarrow>
                   (case substr combined last_name_start None of
                      Inl e \<Rightarrow> Inl e
                    | Inr lastName \<Rightarrow> Inr (trim_trailing_spaces ?g, lastName))
               | None \<Rightarrow> Inr (trim_trailing_spaces ?g, [])) = Inr (trim_trailing_spaces ?g, ?r)"
  proof (cases "?r = []")
    case True
    have "str_find_first_not_of combined space ?fs = None"
      unfolding ffn True by simp
    then show ?thesis by (simp only: True option.case)
  next
    case False
    have f: "str_find_first_not_of combined space ?fs = Some (length combined - length ?r)"
      by (simp only: ffn False if_False)
    have "\<not> length combined < length combined - length ?r" by arith
    then have "substr combined (length combined - length ?r) None = Inr ?r"
      by (simp only: substr_def suffix if_False option.case)
    then show ?thesis by (simp only: f option.case sum.case)
  qed
  show ?thesis
    using True ne
    by (simp add: splitGroupLastName_def find sub trim last spec_group_def spec_lastName_def)
qed

text \<open>
  C5. For every combined string the splitter returns the group and the last name the
  specification describes: the part before the first space with trailing spaces trimmed,
  and the part after the first run of spaces; without a space the group is empty and the
  last name is the whole string. The three examples of the specification are the UTF-8
  bytes of the Cyrillic strings: "PM-35 PONOMAREV", "Ivanov" and the empty string.
\<close>

theorem splitGroupLastName_first_space:
  "splitGroupLastName combined = Inr (spec_group combined, spec_lastName combined)
   \<and> splitGroupLastName
       [CHR 0xD0, CHR 0x9F, CHR 0xD0, CHR 0x9C, CHR 0x2D, CHR 0x33, CHR 0x35,
       CHR 0x20, CHR 0xD0, CHR 0x9F, CHR 0xD0, CHR 0x9E, CHR 0xD0, CHR 0x9D, CHR 0xD0,
       CHR 0x9E, CHR 0xD0, CHR 0x9C, CHR 0xD0, CHR 0x90, CHR 0xD0, CHR 0xA0, CHR 0xD0,
       CHR 0x95, CHR 0xD0, CHR 0x92]
     = Inr ([CHR 0xD0, CHR 0x9F, CHR 0xD0, CHR 0x9C, CHR 0x2D, CHR 0x33, CHR 0x35],
            [CHR 0xD0, CHR 0x9F, CHR 0xD0, CHR 0x9E, CHR 0xD0, CHR 0x9D, CHR 0xD0,
            CHR 0x9E, CHR 0xD0, CHR 0x9C, CHR 0xD0, CHR 0x90, CHR 0xD0, CHR 0xA0, CHR 0xD0,
            CHR 0x95, CHR 0xD0, CHR 0x92])
   \<and> splitGroupLastName
       [CHR 0xD0, CHR 0x98, CHR 0xD0, CHR 0xB2, CHR 0xD0, CHR 0xB0, CHR 0xD0,
            CHR 0xBD, CHR 0xD0, CHR 0xBE, CHR 0xD0, CHR 0xB2]
     = Inr ([],
            [CHR 0xD0, CHR 0x98, CHR 0xD0, CHR 0xB2, CHR 0xD0, CHR 0xB0, CHR 0xD0,
            CHR 0xBD, CHR 0xD0, CHR 0xBE, CHR 0xD0, CHR 0xB2])
   \<and> splitGroupLastName [] = Inr ([], [])"
proof -
  have "splitGroupLastName
       [CHR 0xD0, CHR 0x9F, CHR 0xD0, CHR 0x9C, CHR 0x2D, CHR 0x33, CHR 0x35,
       CHR 0x20, CHR 0xD0, CHR 0x9F, CHR 0xD0, CHR 0x9E, CHR 0xD0, CHR 0x9D, CHR 0xD0,
       CHR 0x9E, CHR 0xD0, CHR 0x9C, CHR 0xD0, CHR 0x90, CHR 0xD0, CHR 0xA0, CHR 0xD0,
       CHR 0x95, CHR 0xD0, CHR 0x92]
     = Inr ([CHR 0xD0, CHR 0x9F, CHR 0xD0, CHR 0x9C, CHR 0x2D, CHR 0x33, CHR 0x35],
            [CHR 0xD0, CHR 0x9F, CHR 0xD0, CHR 0x9E, CHR 0xD0, CHR 0x9D, CHR 0xD0,
            CHR 0x9E, CHR 0xD0, CHR 0x9C, CHR 0xD0, CHR 0x90, CHR 0xD0, CHR 0xA0, CHR 0xD0,
            CHR 0x95, CHR 0xD0, CHR 0x92])"
    by (simp add: splitGroupLastName_def substr_def erase_def)
  moreover have "splitGroupLastName
       [CHR 0xD0, CHR 0x98, CHR 0xD0, CHR 0xB2, CHR 0xD0, CHR 0xB0, CHR 0xD0,
            CHR 0xBD, CHR 0xD0, CHR 0xBE, CHR 0xD0, CHR 0xB2]
     = Inr ([],
            [CHR 0xD0, CHR 0x98, CHR 0xD0, CHR 0xB2, CHR 0xD0, CHR 0xB0, CHR 0xD0,
            CHR 0xBD, CHR 0xD0, CHR 0xBE, CHR 0xD0, CHR 0xB2])"
    by (simp add: splitGroupLastName_def)
  moreover have "splitGroupLastName [] = Inr ([], [])"
    by (simp add: splitGroupLastName_def)
  ultimately show ?thesis
    using splitGroupLastName_spec [of combined] by simp
qed

section \<open>The row mapper\<close>

lemma replicate_23: "replicate 23 x = [x,x,x,x,x,x,x,x,x,x,x,x,x,x,x,x,x,x,x,x,x,x,x]"
  by (simp add: eval_nat_numeral)

lemma build_output_fields_eq:
  "build_output_fields input_fields contact_group_label =
     Inr [input_fields ! 2, [],
          (if spec_group (input_fields ! 3) \<noteq> []
           then spec_group (input_fields ! 3) @ [space] @ spec_lastName (input_fields ! 3)
           else spec_lastName (input_fields ! 3)),
          [], [], [], [], [], [], [], [], [], [], [], [], [],
          contact_group_label, [], input_fields ! 5, [], input_fields ! 4, [], input_fields ! 6]"
  by (simp add: build_output_fields_def splitGroupLastName_spec replicate_23 eval_nat_numeral)

text \<open>
  C1. For every input row of at least seven fields and every label, the row mapper does
  not throw and produces a row of 23 fields: field 2 at position 0, the derived group and
  last name at position 2 (joined by one space if the group is not empty, else the last
  name alone), the label at position 16, field 5 at position 18, field 4 at position 20,
  field 6 at position 22, and the empty string at the seventeen other positions. E-mail 1
  (position 18) takes field 5 and E-mail 2 (position 20) takes field 4.
\<close>

theorem build_output_fields_mapping:
  assumes "INPUT_NUM_COLUMNS_EXPECTED \<le> length input_fields"
  shows "\<exists>group' lastName output_fields.
           splitGroupLastName (input_fields ! INPUT_IDX_GROUPLASTNAME) = Inr (group', lastName)
         \<and> build_output_fields input_fields contact_group_label = Inr output_fields
         \<and> length output_fields = 23
         \<and> output_fields =
             [input_fields ! 2, [],
              (if group' \<noteq> [] then group' @ [space] @ lastName else lastName),
              [], [], [], [], [], [], [], [], [], [], [], [], [],
              contact_group_label, [], input_fields ! 5, [], input_fields ! 4, [],
              input_fields ! 6]
         \<and> output_fields ! 0 = input_fields ! INPUT_IDX_FIRSTNAME
         \<and> output_fields ! 2 = (if group' \<noteq> [] then group' @ [space] @ lastName else lastName)
         \<and> output_fields ! 16 = contact_group_label
         \<and> output_fields ! 18 = input_fields ! INPUT_IDX_EMAILCREATED
         \<and> output_fields ! 20 = input_fields ! INPUT_IDX_EMAILLOGIN
         \<and> output_fields ! 22 = input_fields ! INPUT_IDX_PHONE"
  using build_output_fields_eq [of input_fields contact_group_label]
    splitGroupLastName_spec [of "input_fields ! 3"]
  by (simp add: eval_nat_numeral)

text \<open>
  The example row of the specification, with the label "2024"; the combined field is the
  UTF-8 text of "GR-1 Petrov" with the two letters of the group in Cyrillic.
\<close>

theorem build_output_fields_mapping_witness:
  "INPUT_NUM_COLUMNS_EXPECTED
     \<le> length [[], ''Role'', ''Ivan'', ([CHR 0xD0, CHR 0x93, CHR 0xD0, CHR 0xA0] @ ''-1 Petrov''),
               ''login@x.com'', ''new@x.com'', ''+79990000000'']
   \<and> build_output_fields
        [[], ''Role'', ''Ivan'', ([CHR 0xD0, CHR 0x93, CHR 0xD0, CHR 0xA0] @ ''-1 Petrov''),
         ''login@x.com'', ''new@x.com'', ''+79990000000''] ''2024''
     = Inr [''Ivan'', [], ([CHR 0xD0, CHR 0x93, CHR 0xD0, CHR 0xA0] @ ''-1 Petrov''),
            [], [], [], [], [], [], [], [], [], [], [], [], [],
            ''2024'', [], ''new@x.com'', [], ''login@x.com'', [], ''+79990000000'']"
proof -
  let ?row = "[[], ''Role'', ''Ivan'', ([CHR 0xD0, CHR 0x93, CHR 0xD0, CHR 0xA0] @ ''-1 Petrov''),
               ''login@x.com'', ''new@x.com'', ''+79990000000'']"
  have len: "INPUT_NUM_COLUMNS_EXPECTED \<le> length ?row" by simp
  have split: "splitGroupLastName ([CHR 0xD0, CHR 0x93, CHR 0xD0, CHR 0xA0] @ ''-1 Petrov'')
                 = Inr (([CHR 0xD0, CHR 0x93, CHR 0xD0, CHR 0xA0] @ ''-1''), ''Petrov'')"
    by (simp add: splitGroupLastName_def substr_def erase_def)
  from build_output_fields_mapping [OF len, of "''2024''"] split
  show ?thesis by (simp add: eval_nat_numeral)
qed

section \<open>The row writer\<close>

lemma foldl_append_concat:
  "foldl (\<lambda>out i. out @ g i) acc is = acc @ concat (map g is)"
  by (induction "is" arbitrary: acc) simp_all

lemma concat_indexed_join:
  "concat (map (\<lambda>i. f (xs ! i) @ (if i < length xs - 1 then [comma] else [])) [0..<length xs])
     = join_commas (map f xs)"
proof (induction xs)
  case Nil
  then show ?case by simp
next
  case (Cons x xs)
  have shift: "map (\<lambda>i. f ((x # xs) ! i) @ (if i < length (x # xs) - 1 then [comma] else []))
                 (map Suc [0..<length xs])
               = map (\<lambda>i. f (xs ! i) @ (if i < length xs - 1 then [comma] else [])) [0..<length xs]"
    by auto
  have upt: "[0..<length (x # xs)] = 0 # map Suc [0..<length xs]"
    by (simp add: upt_conv_Cons map_Suc_upt del: upt_Suc)
  show ?case
    unfolding upt list.map concat.simps shift Cons.IH
    by (cases xs) simp_all
qed

lemma write_row_join:
  "write_row output_fields = join_commas (map format_csv_field output_fields) @ [newline]"
proof -
  have eq: "(\<lambda>out i. let out = out @ format_csv_field (output_fields ! i)
                   in if i < length output_fields - 1 then out @ [comma] else out)
        = (\<lambda>out i. out @ (format_csv_field (output_fields ! i)
                            @ (if i < length output_fields - 1 then [comma] else [])))"
    by (auto simp: Let_def fun_eq_iff)
  show ?thesis
    unfolding write_row_def eq foldl_append_concat concat_indexed_join by simp
qed

lemma length_join_commas:
  "length (join_commas xs) = sum_list (map length xs) + (length xs - 1)"
  by (induction xs rule: join_commas.induct) simp_all

text \<open>
  C2. For every line that parses to at least seven fields, the text appended to the
  output file is the 23 encoded fields of the row, joined by single commas (22 of them),
  followed by the one character \<open>0x0A\<close> and nothing else; the row is counted. This holds
  whatever the fields contain, empty or not.
\<close>

theorem data_line_has_23_encoded_fields:
  assumes "INPUT_NUM_COLUMNS_EXPECTED \<le> length (parse_csv_line line)"
  shows "\<exists>output_fields encoded.
           build_output_fields (parse_csv_line line) contact_group_label = Inr output_fields
         \<and> encoded = map format_csv_field output_fields
         \<and> length encoded = 23
         \<and> write_row output_fields = join_commas encoded @ [newline]
         \<and> length (write_row output_fields) = sum_list (map length encoded) + 22 + 1
         \<and> process_data_line contact_group_label st line =
             st\<lparr>output_file := output_file st @ join_commas encoded @ [newline],
                processed_count := processed_count st + 1\<rparr>"
proof -
  obtain output_fields where
    b: "build_output_fields (parse_csv_line line) contact_group_label = Inr output_fields"
    and l: "length output_fields = 23"
    using build_output_fields_eq [of "parse_csv_line line" contact_group_label] by simp
  have w: "write_row output_fields = join_commas (map format_csv_field output_fields) @ [newline]"
    by (rule write_row_join)
  have n: "length (write_row output_fields)
             = sum_list (map length (map format_csv_field output_fields)) + 22 + 1"
    unfolding w using l by (simp add: length_join_commas)
  have p: "process_data_line contact_group_label st line =
             st\<lparr>output_file := output_file st @ join_commas (map format_csv_field output_fields) @ [newline],
                processed_count := processed_count st + 1\<rparr>"
    using assms b w by (simp add: process_data_line_def Let_def)
  show ?thesis using b l w n p by simp
qed

theorem data_line_has_23_encoded_fields_witness:
  "INPUT_NUM_COLUMNS_EXPECTED \<le> length (parse_csv_line '',,,,,,'')
   \<and> process_data_line ''2024'' initial_state '',,,,,,''
       = initial_state
           \<lparr>output_file := output_file initial_state @ '',,,,,,,,,,,,,,,,2024,,,,,,'' @ [newline],
            processed_count := 1\<rparr>"
proof -
  have q: "parse_csv_line '',,,,,,'' = [[], [], [], [], [], [], []]"
    by (simp add: parse_csv_line_def scan_init_def)
  have len: "INPUT_NUM_COLUMNS_EXPECTED \<le> length (parse_csv_line '',,,,,,'')"
    by (simp add: q)
  have b: "build_output_fields [[], [], [], [], [], [], []] ''2024''
     = Inr [[], [], [], [], [], [], [], [], [], [], [], [], [], [], [], [],
            ''2024'', [], [], [], [], [], []]"
    by (simp add: build_output_fields_def splitGroupLastName_def replicate_23 eval_nat_numeral)
  from data_line_has_23_encoded_fields [OF len, of "''2024''" initial_state]
  show ?thesis
    by (simp add: q b format_csv_field_def contains_def initial_state_def)
qed

section \<open>The loop over the lines\<close>

text \<open>
  C7. A line that is not empty, comes after the header and parses to fewer than seven
  fields adds one warning that carries the line number and the raw line, leaves the
  output file and the counter of processed rows as they were, and the loop goes on with
  the rest of the lines.
\<close>

theorem short_row_rejected_with_warning:
  assumes "line \<noteq> []" and "\<not> is_first_line st"
    and "length (parse_csv_line line) < INPUT_NUM_COLUMNS_EXPECTED"
  shows "loop_body contact_group_label st line =
           st\<lparr>line_number := line_number st + 1,
              cerr := cerr st @ [TooFewColumns (line_number st + 1) (length (parse_csv_line line)) line]\<rparr>
       \<and> output_file (loop_body contact_group_label st line) = output_file st
       \<and> processed_count (loop_body contact_group_label st line) = processed_count st
       \<and> process_lines contact_group_label st (line # rest) =
           process_lines contact_group_label (loop_body contact_group_label st line) rest"
  using assms by (simp add: loop_body_def process_data_line_def Let_def)

theorem short_row_rejected_with_warning_witness:
  "''a,b,c,d,e'' \<noteq> []
   \<and> \<not> is_first_line (initial_state\<lparr>is_first_line := False, line_number := 1\<rparr>)
   \<and> length (parse_csv_line ''a,b,c,d,e'') < INPUT_NUM_COLUMNS_EXPECTED
   \<and> loop_body ''2024'' (initial_state\<lparr>is_first_line := False, line_number := 1\<rparr>) ''a,b,c,d,e''
       = initial_state\<lparr>is_first_line := False, line_number := 2,
                       cerr := [TooFewColumns 2 5 ''a,b,c,d,e'']\<rparr>"
proof -
  have p5: "parse_csv_line ''a,b,c,d,e'' = [''a'', ''b'', ''c'', ''d'', ''e'']"
    by (simp add: parse_csv_line_def scan_init_def)
  have a: "''a,b,c,d,e'' \<noteq> []" by simp
  have b: "\<not> is_first_line (initial_state\<lparr>is_first_line := False, line_number := 1\<rparr>)" by simp
  have c: "length (parse_csv_line ''a,b,c,d,e'') < INPUT_NUM_COLUMNS_EXPECTED" by (simp add: p5)
  from short_row_rejected_with_warning [OF a b c, of "''2024''"]
  show ?thesis by (simp add: p5 initial_state_def)
qed

lemma is_first_line_process_data_line:
  "is_first_line (process_data_line contact_group_label st line) = is_first_line st"
  by (simp add: process_data_line_def Let_def split: sum.splits exn.splits)

lemma is_first_line_loop_body:
  "is_first_line (loop_body contact_group_label st line) = (is_first_line st \<and> line = [])"
  by (simp add: loop_body_def Let_def is_first_line_process_data_line)

lemma is_first_line_process_lines:
  "is_first_line (process_lines contact_group_label st ls)
     = (is_first_line st \<and> (\<forall>l\<in>set ls. l = []))"
  by (induction ls arbitrary: st) (auto simp: is_first_line_loop_body)

lemma processed_as_data_row_iff:
  assumes "lines ! i \<noteq> []"
  shows "processed_as_data_row contact_group_label lines i
           \<longleftrightarrow> (\<exists>l\<in>set (take i lines). l \<noteq> [])"
proof -
  let ?st = "process_lines contact_group_label initial_state (take i lines)"
  let ?st' = "?st\<lparr>line_number := line_number ?st + 1\<rparr>"
  have first: "is_first_line ?st = (\<forall>l\<in>set (take i lines). l = [])"
    by (simp add: is_first_line_process_lines initial_state_def)
  show ?thesis
  proof
    assume "processed_as_data_row contact_group_label lines i"
    then have "loop_body contact_group_label ?st (lines ! i)
                 = process_data_line contact_group_label ?st' (lines ! i)"
      by (simp only: processed_as_data_row_def Let_def)
    then have "is_first_line (loop_body contact_group_label ?st (lines ! i))
                 = is_first_line (process_data_line contact_group_label ?st' (lines ! i))"
      by (rule arg_cong)
    then have "\<not> is_first_line ?st"
      using assms by (simp add: is_first_line_loop_body is_first_line_process_data_line)
    then show "\<exists>l\<in>set (take i lines). l \<noteq> []"
      using first by simp
  next
    assume "\<exists>l\<in>set (take i lines). l \<noteq> []"
    then have "\<not> is_first_line ?st" using first by simp
    then have "loop_body contact_group_label ?st (lines ! i)
                 = process_data_line contact_group_label ?st' (lines ! i)"
      using assms by (simp add: loop_body_def Let_def)
    then show "processed_as_data_row contact_group_label lines i"
      by (simp only: processed_as_data_row_def Let_def)
  qed
qed

lemma line_number_process_data_line:
  "line_number (process_data_line contact_group_label st line) = line_number st"
  by (simp add: process_data_line_def Let_def split: sum.splits exn.splits)

lemma line_number_loop_body:
  "line_number (loop_body contact_group_label st line) = line_number st + 1"
  by (simp add: loop_body_def Let_def line_number_process_data_line)

lemma line_number_process_lines:
  "line_number (process_lines contact_group_label st ls) = line_number st + int (length ls)"
  by (induction ls arbitrary: st) (simp_all add: line_number_loop_body)

lemma process_lines_append:
  "process_lines contact_group_label st (xs @ ys)
     = process_lines contact_group_label (process_lines contact_group_label st xs) ys"
  by (induction xs arbitrary: st) simp_all

lemma cerr_process_data_line:
  "\<exists>ws. cerr (process_data_line contact_group_label st line) = cerr st @ ws"
  by (simp add: process_data_line_def Let_def split: sum.splits exn.splits)

lemma cerr_loop_body:
  "\<exists>ws. cerr (loop_body contact_group_label st line) = cerr st @ ws"
  using cerr_process_data_line [of contact_group_label "st\<lparr>line_number := line_number st + 1\<rparr>" line]
  by (simp add: loop_body_def Let_def)

lemma cerr_process_lines:
  "\<exists>ws. cerr (process_lines contact_group_label st ls) = cerr st @ ws"
proof (induction ls arbitrary: st)
  case Nil
  then show ?case by simp
next
  case (Cons l ls)
  obtain w1 where w1: "cerr (loop_body contact_group_label st l) = cerr st @ w1"
    using cerr_loop_body by blast
  obtain w2 where "cerr (process_lines contact_group_label (loop_body contact_group_label st l) ls)
                     = cerr (loop_body contact_group_label st l) @ w2"
    using Cons.IH by blast
  then show ?case using w1 by simp
qed

lemma empty_line_not_data_row:
  "st\<lparr>line_number := n, cerr := cerr st @ [EmptyLineSkipped n]\<rparr>
     \<noteq> process_data_line contact_group_label (st\<lparr>line_number := n\<rparr>) []"
proof
  assume "st\<lparr>line_number := n, cerr := cerr st @ [EmptyLineSkipped n]\<rparr>
            = process_data_line contact_group_label (st\<lparr>line_number := n\<rparr>) []"
  then have "cerr (st\<lparr>line_number := n, cerr := cerr st @ [EmptyLineSkipped n]\<rparr>)
            = cerr (process_data_line contact_group_label (st\<lparr>line_number := n\<rparr>) [])"
    by (rule arg_cong)
  then show False
    by (simp add: process_data_line_def parse_csv_line_def scan_init_def)
qed

text \<open>
  The header flag is cleared by the first line that is not empty, because the test for an
  empty line comes first in the loop body. With an empty first line, the second line is
  the one discarded as the header: here it has seven fields, and the run writes no data
  line, counts no row and only warns about the empty line 1.
\<close>

theorem second_line_discarded_as_header:
  "(0::nat) < 1 \<and> 1 < length [[], ''t,r,Ivan,G Petrov,l@x,n@x,+7'']
   \<and> [[], ''t,r,Ivan,G Petrov,l@x,n@x,+7''] ! 1 \<noteq> []
   \<and> \<not> processed_as_data_row ''2024'' [[], ''t,r,Ivan,G Petrov,l@x,n@x,+7''] 1
   \<and> process_lines ''2024'' initial_state [[], ''t,r,Ivan,G Petrov,l@x,n@x,+7'']
       = initial_state\<lparr>cerr := [EmptyLineSkipped 1], is_first_line := False, line_number := 2\<rparr>"
proof -
  have ne: "[[], ''t,r,Ivan,G Petrov,l@x,n@x,+7''] ! 1 \<noteq> []" by simp
  have "\<not> processed_as_data_row ''2024'' [[], ''t,r,Ivan,G Petrov,l@x,n@x,+7''] 1"
    using processed_as_data_row_iff [OF ne, of "''2024''"] by simp
  moreover have "process_lines ''2024'' initial_state [[], ''t,r,Ivan,G Petrov,l@x,n@x,+7'']
       = initial_state\<lparr>cerr := [EmptyLineSkipped 1], is_first_line := False, line_number := 2\<rparr>"
    by (simp add: loop_body_def initial_state_def)
  ultimately show ?thesis using ne by simp
qed

text \<open>
  C8, amended. The line discarded as the header is the first line that is not empty. For
  every line of the input: an empty line is skipped with the warning that carries its
  number, leaves the header flag as it was and is not processed as a data row; a non-empty
  line is discarded, unparsed, exactly if every line before it is empty, and it is
  processed as a data row exactly if some line before it is not empty. So when the first
  line is not empty it is the header, and no later line is discarded as the header.
\<close>

theorem header_is_first_nonempty_line:
  assumes "i < length lines"
  shows "loop_body contact_group_label
           (process_lines contact_group_label initial_state (take i lines)) (lines ! i)
         = (let st = process_lines contact_group_label initial_state (take i lines);
                st' = st\<lparr>line_number := line_number st + 1\<rparr>
            in if lines ! i = []
               then st'\<lparr>cerr := cerr st @ [EmptyLineSkipped (line_number st + 1)]\<rparr>
               else if \<forall>l\<in>set (take i lines). l = []
               then st'\<lparr>is_first_line := False\<rparr>
               else process_data_line contact_group_label st' (lines ! i))
       \<and> line_number (process_lines contact_group_label initial_state (take i lines)) = int i
       \<and> (lines ! i \<noteq> [] \<longrightarrow>
            (processed_as_data_row contact_group_label lines i
              \<longleftrightarrow> (\<exists>l\<in>set (take i lines). l \<noteq> [])))
       \<and> (lines ! i = [] \<longrightarrow>
            \<not> processed_as_data_row contact_group_label lines i
            \<and> is_first_line (loop_body contact_group_label
                 (process_lines contact_group_label initial_state (take i lines)) (lines ! i))
               = is_first_line (process_lines contact_group_label initial_state (take i lines))
            \<and> EmptyLineSkipped (int i + 1)
                 \<in> set (cerr (process_lines contact_group_label initial_state lines)))"
proof -
  let ?st = "process_lines contact_group_label initial_state (take i lines)"
  let ?st' = "?st\<lparr>line_number := line_number ?st + 1\<rparr>"
  have first: "is_first_line ?st = (\<forall>l\<in>set (take i lines). l = [])"
    by (simp add: is_first_line_process_lines initial_state_def)
  have num: "line_number ?st = int i"
    using assms by (simp add: line_number_process_lines initial_state_def)
  have body: "loop_body contact_group_label ?st (lines ! i)
         = (let st = ?st; st' = st\<lparr>line_number := line_number st + 1\<rparr>
            in if lines ! i = []
               then st'\<lparr>cerr := cerr st @ [EmptyLineSkipped (line_number st + 1)]\<rparr>
               else if \<forall>l\<in>set (take i lines). l = []
               then st'\<lparr>is_first_line := False\<rparr>
               else process_data_line contact_group_label st' (lines ! i))"
    using first by (simp add: loop_body_def Let_def)
  have nonempty: "processed_as_data_row contact_group_label lines i
              \<longleftrightarrow> (\<exists>l\<in>set (take i lines). l \<noteq> [])" if "lines ! i \<noteq> []"
    using processed_as_data_row_iff [OF that, of contact_group_label] .
  have empty: "\<not> processed_as_data_row contact_group_label lines i
            \<and> is_first_line (loop_body contact_group_label ?st (lines ! i)) = is_first_line ?st
            \<and> EmptyLineSkipped (int i + 1)
                 \<in> set (cerr (process_lines contact_group_label initial_state lines))"
    if e: "lines ! i = []"
  proof -
    have lb: "loop_body contact_group_label ?st []
                = ?st\<lparr>line_number := line_number ?st + 1,
                      cerr := cerr ?st @ [EmptyLineSkipped (line_number ?st + 1)]\<rparr>"
      by (simp add: loop_body_def Let_def)
    have a: "\<not> processed_as_data_row contact_group_label lines i"
      unfolding processed_as_data_row_def Let_def e lb
      by (rule empty_line_not_data_row)
    have b: "is_first_line (loop_body contact_group_label ?st (lines ! i)) = is_first_line ?st"
      using e by (simp add: is_first_line_loop_body)
    have split: "lines = take i lines @ [] # drop (Suc i) lines"
      using assms e id_take_nth_drop by metis
    have "process_lines contact_group_label initial_state lines
            = process_lines contact_group_label (loop_body contact_group_label ?st [])
                (drop (Suc i) lines)"
      using process_lines_append [of contact_group_label initial_state "take i lines"
          "[] # drop (Suc i) lines"] split
      by simp
    then obtain ws where
      "cerr (process_lines contact_group_label initial_state lines)
         = cerr (loop_body contact_group_label ?st []) @ ws"
      using cerr_process_lines by metis
    then have c: "EmptyLineSkipped (int i + 1)
                 \<in> set (cerr (process_lines contact_group_label initial_state lines))"
      by (simp add: lb num)
    show ?thesis using a b c by simp
  qed
  show ?thesis using body num nonempty empty by simp
qed

theorem header_is_first_nonempty_line_witness:
  "3 < length [[], ''h'', [], '',,,,,,'']
   \<and> [[], ''h'', [], '',,,,,,''] ! 0 = []
   \<and> [[], ''h'', [], '',,,,,,''] ! 1 \<noteq> []
   \<and> [[], ''h'', [], '',,,,,,''] ! 2 = []
   \<and> [[], ''h'', [], '',,,,,,''] ! 3 \<noteq> []
   \<and> \<not> processed_as_data_row ''2024'' [[], ''h'', [], '',,,,,,''] 0
   \<and> \<not> processed_as_data_row ''2024'' [[], ''h'', [], '',,,,,,''] 1
   \<and> \<not> processed_as_data_row ''2024'' [[], ''h'', [], '',,,,,,''] 2
   \<and> processed_as_data_row ''2024'' [[], ''h'', [], '',,,,,,''] 3
   \<and> EmptyLineSkipped 1 \<in> set (cerr (process_lines ''2024'' initial_state [[], ''h'', [], '',,,,,,'']))
   \<and> EmptyLineSkipped 3 \<in> set (cerr (process_lines ''2024'' initial_state [[], ''h'', [], '',,,,,,'']))"
proof -
  let ?lines = "[[], ''h'', [], '',,,,,,'']"
  have l0: "0 < length ?lines" and l1: "1 < length ?lines"
    and l2: "2 < length ?lines" and l3: "3 < length ?lines" by simp_all
  have n0: "?lines ! 0 = []" and n1: "?lines ! 1 \<noteq> []"
    and n2: "?lines ! 2 = []" and n3: "?lines ! 3 \<noteq> []" by simp_all
  have t1: "\<forall>l\<in>set (take 1 ?lines). l = []" by simp
  have t3: "\<exists>l\<in>set (take 3 ?lines). l \<noteq> []" by (simp add: eval_nat_numeral)
  have r0: "\<not> processed_as_data_row ''2024'' ?lines 0"
    and w0: "EmptyLineSkipped 1 \<in> set (cerr (process_lines ''2024'' initial_state ?lines))"
    using header_is_first_nonempty_line [OF l0, of "''2024''"] n0
    by (simp_all del: process_lines.simps)
  have r1: "\<not> processed_as_data_row ''2024'' ?lines 1"
    using header_is_first_nonempty_line [OF l1, of "''2024''"] n1 t1 by blast
  have r2: "\<not> processed_as_data_row ''2024'' ?lines 2"
    and w2: "EmptyLineSkipped 3 \<in> set (cerr (process_lines ''2024'' initial_state ?lines))"
    using header_is_first_nonempty_line [OF l2, of "''2024''"] n2
    by (simp_all del: process_lines.simps)
  have r3: "processed_as_data_row ''2024'' ?lines 3"
    using header_is_first_nonempty_line [OF l3, of "''2024''"] n3 t3 by blast
  show ?thesis using l3 n0 n1 n2 n3 r0 r1 r2 r3 w0 w2 by blast
qed

lemma process_data_line_data_line_of:
  "process_data_line contact_group_label st line =
     (case data_line_of contact_group_label line of
        None \<Rightarrow> st\<lparr>cerr := cerr st @ [TooFewColumns (line_number st) (length (parse_csv_line line)) line]\<rparr>
      | Some d \<Rightarrow> st\<lparr>output_file := output_file st @ d,
                     processed_count := processed_count st + 1\<rparr>)"
  by (simp add: process_data_line_def data_line_of_def Let_def build_output_fields_eq)

lemma loop_body_output:
  "output_file (loop_body contact_group_label st line) =
     output_file st @ (if line = [] \<or> is_first_line st then []
                       else case data_line_of contact_group_label line of None \<Rightarrow> [] | Some d \<Rightarrow> d)"
  by (simp add: loop_body_def Let_def process_data_line_data_line_of split: option.splits)

lemma loop_body_count:
  "processed_count (loop_body contact_group_label st line) =
     processed_count st + (if line = [] \<or> is_first_line st then 0
                       else case data_line_of contact_group_label line of None \<Rightarrow> 0 | Some d \<Rightarrow> 1)"
  by (simp add: loop_body_def Let_def process_data_line_data_line_of split: option.splits)

lemma process_lines_output_count:
  "output_file (process_lines contact_group_label st ls) =
     output_file st @ concat (List.map_filter (data_line_of contact_group_label) (candidates (is_first_line st) ls))
   \<and> processed_count (process_lines contact_group_label st ls) =
     processed_count st + int (length (List.map_filter (data_line_of contact_group_label) (candidates (is_first_line st) ls)))"
proof (induction ls arbitrary: st)
  case Nil
  then show ?case by (simp add: candidates_def List.map_filter_simps)
next
  case (Cons l ls)
  show ?case
  proof (cases "l = []")
    case True
    then have "candidates (is_first_line (loop_body contact_group_label st l)) ls
                 = candidates (is_first_line st) (l # ls)"
      by (simp add: is_first_line_loop_body candidates_def)
    then show ?thesis
      using True Cons.IH [of "loop_body contact_group_label st l"]
      by (simp add: loop_body_output loop_body_count)
  next
    case False
    then have c: "candidates (is_first_line (loop_body contact_group_label st l)) ls
                 = filter (\<lambda>l. l \<noteq> []) ls"
      by (simp add: is_first_line_loop_body candidates_def)
    show ?thesis
    proof (cases "is_first_line st")
      case True
      then have "candidates (is_first_line st) (l # ls) = filter (\<lambda>l. l \<noteq> []) ls"
        using False by (simp add: candidates_def)
      then show ?thesis
        using True False c Cons.IH [of "loop_body contact_group_label st l"]
        by (simp add: loop_body_output loop_body_count)
    next
      case nf: False
      then have "candidates (is_first_line st) (l # ls) = l # filter (\<lambda>l. l \<noteq> []) ls"
        using False by (simp add: candidates_def)
      then show ?thesis
        using nf False c Cons.IH [of "loop_body contact_group_label st l"]
        by (simp add: loop_body_output loop_body_count List.map_filter_simps split: option.splits)
    qed
  qed
qed


lemma scan_loop_chars:
  "\<forall>f\<in>set (fields_vec s). set f \<subseteq> A \<Longrightarrow> set (field_buffer s) \<subseteq> A \<Longrightarrow> set ss \<subseteq> A \<Longrightarrow>
   (\<forall>f\<in>set (fields_vec (scan_loop s ss)). set f \<subseteq> A)
   \<and> set (field_buffer (scan_loop s ss)) \<subseteq> A"
proof (induction s ss rule: scan_loop.induct)
  case (1 s)
  then show ?case by simp
next
  case (2 s c ss)
  have tl_sub: "set (tl ss) \<subseteq> A"
    using "2.prems"(3) by (cases ss) auto
  have c_in: "c \<in> A" and ss_sub: "set ss \<subseteq> A"
    using "2.prems"(3) by auto
  show ?case
  proof (cases "c = dquote")
    case True
    show ?thesis
    proof (cases "peek ss = Some dquote")
      case p: True
      have "(\<forall>f\<in>set (fields_vec (scan_loop (s\<lparr>field_buffer := field_buffer s @ [dquote]\<rparr>) (tl ss))). set f \<subseteq> A)
            \<and> set (field_buffer (scan_loop (s\<lparr>field_buffer := field_buffer s @ [dquote]\<rparr>) (tl ss))) \<subseteq> A"
        using "2.IH"(1) [OF True p] "2.prems"(1,2) tl_sub c_in True by simp
      then show ?thesis using True p by simp
    next
      case p: False
      have "(\<forall>f\<in>set (fields_vec (scan_loop (s\<lparr>in_quotes := \<not> in_quotes s\<rparr>) ss)). set f \<subseteq> A)
            \<and> set (field_buffer (scan_loop (s\<lparr>in_quotes := \<not> in_quotes s\<rparr>) ss)) \<subseteq> A"
        using "2.IH"(2) [OF True p] "2.prems"(1,2) ss_sub by simp
      then show ?thesis using True p by simp
    qed
  next
    case False
    show ?thesis
    proof (cases "c = comma \<and> \<not> in_quotes s")
      case p: True
      have "(\<forall>f\<in>set (fields_vec (scan_loop (s\<lparr>fields_vec := fields_vec s @ [field_buffer s], field_buffer := []\<rparr>) ss)). set f \<subseteq> A)
            \<and> set (field_buffer (scan_loop (s\<lparr>fields_vec := fields_vec s @ [field_buffer s], field_buffer := []\<rparr>) ss)) \<subseteq> A"
        using "2.IH"(3) [OF False p] "2.prems"(1,2) ss_sub by simp
      then show ?thesis using False p by simp
    next
      case p: False
      have "(\<forall>f\<in>set (fields_vec (scan_loop (s\<lparr>field_buffer := field_buffer s @ [c]\<rparr>) ss)). set f \<subseteq> A)
            \<and> set (field_buffer (scan_loop (s\<lparr>field_buffer := field_buffer s @ [c]\<rparr>) ss)) \<subseteq> A"
        using "2.IH"(4) [OF False p] "2.prems"(1,2) ss_sub c_in by simp
      then show ?thesis using False p by auto
    qed
  qed
qed

lemma parse_csv_line_chars:
  "f \<in> set (parse_csv_line line) \<Longrightarrow> set f \<subseteq> set line"
  using scan_loop_chars [of scan_init "set line" line]
  by (auto simp: parse_csv_line_def Let_def scan_init_def)

lemma set_double_quotes: "set (double_quotes f) = set f"
  by (induction f) (auto simp: double_quotes_def)

lemma format_csv_field_no_newline:
  "newline \<notin> set f \<Longrightarrow> newline \<notin> set (format_csv_field f)"
  by (simp add: format_csv_field_cases wrap_doubled_def set_double_quotes)

lemma join_commas_no_newline:
  "\<forall>x\<in>set xs. newline \<notin> set x \<Longrightarrow> newline \<notin> set (join_commas xs)"
  by (induction xs rule: join_commas.induct) simp_all

lemma set_spec_group: "set (spec_group c) \<subseteq> set c"
  by (auto simp: spec_group_def trim_trailing_spaces_def dest!: set_dropWhileD set_takeWhileD)

lemma set_spec_lastName: "set (spec_lastName c) \<subseteq> set c"
  by (auto simp: spec_lastName_def dest!: set_dropWhileD)

lemma count_newline_write_row:
  "\<forall>f\<in>set output_fields. newline \<notin> set f \<Longrightarrow> count_list (write_row output_fields) newline = 1"
proof -
  assume a: "\<forall>f\<in>set output_fields. newline \<notin> set f"
  have "newline \<notin> set (join_commas (map format_csv_field output_fields))"
    by (rule join_commas_no_newline) (use a in \<open>simp add: format_csv_field_no_newline\<close>)
  then show ?thesis by (simp add: write_row_join)
qed

lemma data_line_of_one_newline:
  assumes "data_line_of contact_group_label line = Some d"
    and "newline \<notin> set line" and "newline \<notin> set contact_group_label"
  shows "count_list d newline = 1"
proof -
  let ?fs = "parse_csv_line line"
  have len: "7 \<le> length ?fs"
    using assms(1) by (simp add: data_line_of_def Let_def split: if_splits)
  have free: "newline \<notin> set (?fs ! k)" if "k < 7" for k
  proof -
    have "?fs ! k \<in> set ?fs" using that len by simp
    then show ?thesis using parse_csv_line_chars assms(2) by blast
  qed
  have g: "newline \<notin> set (spec_group (?fs ! 3))" 
    using set_spec_group [of "?fs ! 3"] free [of 3] by auto
  have l: "newline \<notin> set (spec_lastName (?fs ! 3))"
    using set_spec_lastName [of "?fs ! 3"] free [of 3] by auto
  obtain out where b: "build_output_fields ?fs contact_group_label = Inr out"
    and o: "\<forall>f\<in>set out. newline \<notin> set f"
    using build_output_fields_eq [of ?fs contact_group_label] g l
      free [of 2] free [of 4] free [of 5] free [of 6] assms(3)
    by simp
  have "d = write_row out"
    using assms(1) len b by (simp add: data_line_of_def Let_def)
  then show ?thesis using count_newline_write_row [OF o] by simp
qed

lemma count_list_concat_ones:
  "\<forall>d\<in>set ds. count_list d x = 1 \<Longrightarrow> count_list (concat ds) x = length ds"
  by (induction ds) simp_all

lemma map_filter_mem:
  "d \<in> set (List.map_filter f xs) \<Longrightarrow> \<exists>x\<in>set xs. f x = Some d"
  by (auto simp: List.map_filter_def)

lemma header_one_newline:
  "count_list (utf8_bom @ output_header @ [newline]) newline = 1"
  by (simp add: utf8_bom_def output_header_def)

text \<open>
  C10. A run that reaches the loop (one or three arguments, both files open; fewer than
  \<open>2^31\<close> lines, so that the \<open>int\<close> counters do not overflow) ends with an output file that is
  the byte-order mark, the header line and then the data lines of the accepted rows, one
  for each, and with a count equal to the number of these data lines. When the lines and the
  label are free of newlines, as \<open>std::getline\<close> guarantees, the count plus one is the number
  of newline characters of the file. Every iteration either leaves the file and the count as
  they were, or appends one data line and adds one to the count.
\<close>

theorem processed_count_equals_data_lines:
  assumes "argc = 1 \<or> argc = 3" and "length lines < 2 ^ 31"
  shows "(\<exists>st. main argc contact_group_label (Some lines) True = Inr st
           \<and> output_file st =
               utf8_bom @ output_header @ [newline] @ concat (data_lines_written contact_group_label lines)
           \<and> processed_count st = int (length (data_lines_written contact_group_label lines))
           \<and> ((\<forall>l\<in>set lines. newline \<notin> set l) \<and> newline \<notin> set contact_group_label
                \<longrightarrow> int (count_list (output_file st) newline) = 1 + processed_count st))
       \<and> (\<forall>s line.
             (output_file (loop_body contact_group_label s line) = output_file s
              \<and> processed_count (loop_body contact_group_label s line) = processed_count s)
           \<or> (\<exists>d. data_line_of contact_group_label line = Some d
                \<and> output_file (loop_body contact_group_label s line) = output_file s @ d
                \<and> processed_count (loop_body contact_group_label s line) = processed_count s + 1))"
proof -
  let ?st = "process_lines contact_group_label initial_state lines"
  let ?ds = "data_lines_written contact_group_label lines"
  have m: "main argc contact_group_label (Some lines) True = Inr ?st"
    using assms(1) by (auto simp: main_def)
  have c: "candidates (is_first_line initial_state) lines = tl (filter (\<lambda>l. l \<noteq> []) lines)"
    by (simp add: candidates_def initial_state_def)
  have oc: "output_file ?st = output_file initial_state @ concat ?ds
            \<and> processed_count ?st = processed_count initial_state + int (length ?ds)"
    using process_lines_output_count [of contact_group_label initial_state lines]
    by (simp only: c data_lines_written_def)
  have o: "output_file ?st = utf8_bom @ output_header @ [newline] @ concat ?ds"
    using oc by (simp add: initial_state_def)
  have n: "processed_count ?st = int (length ?ds)"
    using oc by (simp add: initial_state_def)
  have k: "int (count_list (output_file ?st) newline) = 1 + processed_count ?st"
    if free: "\<forall>l\<in>set lines. newline \<notin> set l" and lab: "newline \<notin> set contact_group_label"
  proof -
    have "count_list d newline = 1" if "d \<in> set ?ds" for d
    proof -
      from that obtain l where "l \<in> set (tl (filter (\<lambda>l. l \<noteq> []) lines))"
        and d: "data_line_of contact_group_label l = Some d"
        unfolding data_lines_written_def by (blast dest: map_filter_mem)
      then have "l \<in> set lines"
        by (metis filter_is_subset list.set_sel(2) subsetD tl_Nil)
      then have "newline \<notin> set l" using free by simp
      then show ?thesis by (rule data_line_of_one_newline [OF d _ lab])
    qed
    then have "count_list (concat ?ds) newline = length ?ds"
      by (simp add: count_list_concat_ones)
    then have "count_list (output_file ?st) newline = 1 + length ?ds"
      using header_one_newline unfolding o by simp
    then show ?thesis using n by simp
  qed
  have step: "(output_file (loop_body contact_group_label s line) = output_file s
              \<and> processed_count (loop_body contact_group_label s line) = processed_count s)
           \<or> (\<exists>d. data_line_of contact_group_label line = Some d
                \<and> output_file (loop_body contact_group_label s line) = output_file s @ d
                \<and> processed_count (loop_body contact_group_label s line) = processed_count s + 1)"
    for s line
    by (cases "data_line_of contact_group_label line")
       (simp_all add: loop_body_output loop_body_count)
  show ?thesis using m o n k step by blast
qed

theorem processed_count_equals_data_lines_witness:
  "((1::int) = 1 \<or> (1::int) = 3)
   \<and> length [''h'', [], ''a,b,c,d,e'', '',,,,,,''] < 2 ^ 31
   \<and> newline \<notin> set (concat [''h'', [], ''a,b,c,d,e'', '',,,,,,''])
   \<and> newline \<notin> set ''2024''
   \<and> main 1 ''2024'' (Some [''h'', [], ''a,b,c,d,e'', '',,,,,,'']) True
       = Inr (process_lines ''2024'' initial_state [''h'', [], ''a,b,c,d,e'', '',,,,,,''])
   \<and> processed_count (process_lines ''2024'' initial_state [''h'', [], ''a,b,c,d,e'', '',,,,,,'']) = 1
   \<and> count_list (output_file (process_lines ''2024'' initial_state [''h'', [], ''a,b,c,d,e'', '',,,,,,''])) newline = 2"
proof -
  let ?lines = "[''h'', [], ''a,b,c,d,e'', '',,,,,,'']"
  have a: "(1::int) = 1 \<or> (1::int) = 3" by simp
  have b: "length ?lines < 2 ^ 31" by simp
  have p5: "parse_csv_line ''a,b,c,d,e'' = [''a'', ''b'', ''c'', ''d'', ''e'']"
    by (simp add: parse_csv_line_def scan_init_def)
  have p7: "parse_csv_line '',,,,,,'' = [[], [], [], [], [], [], []]"
    by (simp add: parse_csv_line_def scan_init_def)
  have d: "length (data_lines_written ''2024'' ?lines) = 1"
    by (simp add: data_lines_written_def data_line_of_def p5 p7 build_output_fields_eq
        List.map_filter_simps Let_def)
  have m: "main 1 ''2024'' (Some ?lines) True = Inr (process_lines ''2024'' initial_state ?lines)"
    by (simp add: main_def)
  from processed_count_equals_data_lines [OF a b, of "''2024''"]
  obtain st where s1: "main 1 ''2024'' (Some ?lines) True = Inr st"
    and s3: "processed_count st = int (length (data_lines_written ''2024'' ?lines))"
    and s4: "(\<forall>l\<in>set ?lines. newline \<notin> set l) \<and> newline \<notin> set ''2024''
               \<longrightarrow> int (count_list (output_file st) newline) = 1 + processed_count st"
    by blast
  have st: "process_lines ''2024'' initial_state ?lines = st"
    using s1 unfolding m by (simp only: sum.inject)
  have free: "(\<forall>l\<in>set ?lines. newline \<notin> set l) \<and> newline \<notin> set ''2024''" by simp
  have cnt: "processed_count st = 1" using s3 d by simp
  have num: "count_list (output_file st) newline = 2" using s4 free cnt by simp
  have c: "newline \<notin> set (concat ?lines)" by simp
  have e: "newline \<notin> set ''2024''" by simp
  show ?thesis
    unfolding st using a b c e m cnt num unfolding st by blast
qed

end
